theory Spec2Isabelle
  imports Main "HOL-Library.Sublist"
begin

section \<open>The game object of \<^verbatim>\<open>TicTacToe.py\<close>\<close>

text \<open>
  The class \<^verbatim>\<open>TicTacToe\<close> has five attributes. The board is a Python list of
  one-character strings (\<^verbatim>\<open>' '\<close>, \<^verbatim>\<open>'x'\<close>, \<^verbatim>\<open>'o'\<close>), the three histories are lists of
  Python integers, and the player to move is the integer 0 or 1.
\<close>

datatype error = IndexError | ValueError | AttributeError

record TicTacToe =
  currentBoard :: "string list"
  playerOneMoves :: "int list"
  playerTwoMoves :: "int list"
  allMoves :: "int list"
  currentPlayer :: int

definition PLAYER_ONE :: int where
  "PLAYER_ONE = 0"

definition PLAYER_TWO :: int where
  "PLAYER_TWO = 1"

text \<open>\<^verbatim>\<open>__init__\<close>: the empty board, no moves, player one to move.\<close>

definition init :: TicTacToe where
  "init = \<lparr>currentBoard = replicate 9 '' '', playerOneMoves = [], playerTwoMoves = [],
            allMoves = [], currentPlayer = PLAYER_ONE\<rparr>"

definition get_num_moves :: "TicTacToe \<Rightarrow> int" where
  "get_num_moves self = int (length (allMoves self))"

text \<open>\<^verbatim>\<open>[index for index, value in enumerate(self.currentBoard) if value == ' ']\<close>\<close>

definition get_available_moves :: "TicTacToe \<Rightarrow> int list" where
  "get_available_moves self =
     map (\<lambda>(index, value). int index)
       (filter (\<lambda>(index, value). value = '' '') (enumerate 0 (currentBoard self)))"

text \<open>
  Python's \<^verbatim>\<open>xs[i] = v\<close>: a negative index counts from the end, and an index outside
  \<open>[-len, len)\<close> raises \<^verbatim>\<open>IndexError\<close>.
\<close>

definition setitem :: "'a list \<Rightarrow> int \<Rightarrow> 'a \<Rightarrow> error + 'a list" where
  "setitem xs i v =
     (let n = int (length xs); j = (if i < 0 then n + i else i)
      in if 0 \<le> j \<and> j < n then Inr (xs[nat j := v]) else Inl IndexError)"

text \<open>
  \<^verbatim>\<open>add_move\<close> mutates the object, so the model returns the object after the call
  together with the exception raised, if any. The two \<^verbatim>\<open>append\<close>s come before the
  assignment to the board, so they have happened when that assignment raises.
\<close>

definition add_move :: "TicTacToe \<Rightarrow> int \<Rightarrow> error option \<times> TicTacToe" where
  "add_move self moveIndex =
     (let (self1, symbol) =
            (if currentPlayer self = PLAYER_ONE
             then (self\<lparr>playerOneMoves := playerOneMoves self @ [moveIndex]\<rparr>, ''x'')
             else (self\<lparr>playerTwoMoves := playerTwoMoves self @ [moveIndex]\<rparr>, ''o''));
          self2 = self1\<lparr>allMoves := allMoves self1 @ [moveIndex]\<rparr>
      in case setitem (currentBoard self2) moveIndex symbol of
           Inl e \<Rightarrow> (Some e, self2)
         | Inr board \<Rightarrow>
             (None, self2\<lparr>currentBoard := board,
                          currentPlayer := (currentPlayer self2 + 1) mod 2\<rparr>))"

definition winningCombos :: "int list list" where
  "winningCombos =
     [[0,1,2],[3,4,5],[6,7,8],[0,3,6],[1,4,7],[2,5,8],[0,4,8],[2,4,6]]"

text \<open>\<^verbatim>\<open>set(combo).issubset(moves)\<close>\<close>

definition issubset :: "int list \<Rightarrow> int list \<Rightarrow> bool" where
  "issubset combo moves = list_all (\<lambda>c. c \<in> set moves) combo"

text \<open>
  \<^verbatim>\<open>check_win\<close>: the loop runs over all eight combinations and never breaks, so a
  later combination overwrites the verdict of an earlier one.
\<close>

definition check_win_step :: "TicTacToe \<Rightarrow> int list \<Rightarrow> int \<times> bool \<Rightarrow> int \<times> bool" where
  "check_win_step self combo acc =
     (if issubset combo (playerOneMoves self) then (PLAYER_ONE, True)
      else if issubset combo (playerTwoMoves self) then (PLAYER_TWO, True)
      else acc)"

definition check_win :: "TicTacToe \<Rightarrow> int \<times> bool" where
  "check_win self =
     fold (check_win_step self) winningCombos (- 1, length (allMoves self) = 9)"

text \<open>\<^verbatim>\<open>scores.index(bestScore)\<close> and \<^verbatim>\<open>moves[i]\<close>, with their exceptions.\<close>

fun index :: "int list \<Rightarrow> int \<Rightarrow> error + nat" where
  "index [] v = Inl ValueError"
| "index (x # xs) v =
     (if x = v then Inr 0
      else case index xs v of Inl e \<Rightarrow> Inl e | Inr i \<Rightarrow> Inr (Suc i))"

definition getitem :: "'a list \<Rightarrow> nat \<Rightarrow> error + 'a" where
  "getitem xs i = (if i < length xs then Inr (xs ! i) else Inl IndexError)"

text \<open>
  The body of the \<^verbatim>\<open>for\<close> loop of \<^verbatim>\<open>minimax\<close> stops at the first exception;
  \<open>collect\<close> turns the list of the iterations' outcomes into that exception or the list
  of their results.
\<close>

fun collect :: "(error + 'a) list \<Rightarrow> error + 'a list" where
  "collect [] = Inr []"
| "collect (Inl e # rs) = Inl e"
| "collect (Inr x # rs) = (case collect rs of Inl e \<Rightarrow> Inl e | Inr xs \<Rightarrow> Inr (x # xs))"

text \<open>The number of empty cells, which each recursive call of \<^verbatim>\<open>minimax\<close> decreases.\<close>

definition num_empty :: "TicTacToe \<Rightarrow> nat" where
  "num_empty self = length (filter (\<lambda>value. value = '' '') (currentBoard self))"

text \<open>
  \<^verbatim>\<open>minimax\<close>. \<^verbatim>\<open>copy.deepcopy(self)\<close> gives the loop body an object of its own, so on
  values the copy is \<open>self\<close> and \<^verbatim>\<open>add_move\<close> on it yields \<open>possibleGame\<close>.
  \<^verbatim>\<open>self.allMoves[-1]\<close> raises \<^verbatim>\<open>IndexError\<close> on an empty history, and \<^verbatim>\<open>max\<close>
  and \<^verbatim>\<open>min\<close> of an empty list raise \<^verbatim>\<open>ValueError\<close>.
\<close>

function minimax :: "TicTacToe \<Rightarrow> bool \<Rightarrow> error + int \<times> int" where
  "minimax self maximize =
     (let (winner, isOver) = check_win self in
      if isOver then
        (let numMoves = get_num_moves self in
         if allMoves self = [] then Inl IndexError
         else
           (let bestMove = last (allMoves self) in
            if winner = PLAYER_ONE then Inr (bestMove, numMoves - 10)
            else if winner = PLAYER_TWO then Inr (bestMove, 10 - numMoves)
            else Inr (bestMove, 0)))
      else
        (case collect
                (map (\<lambda>possibleMove.
                        case add_move self possibleMove of
                          (Some e, possibleGame) \<Rightarrow> Inl e
                        | (None, possibleGame) \<Rightarrow>
                            (case minimax possibleGame (\<not> maximize) of
                               Inl e \<Rightarrow> Inl e
                             | Inr (nextMove, nextScore) \<Rightarrow>
                                 Inr (if maximize then possibleMove else nextMove, nextScore)))
                   (get_available_moves self)) of
           Inl e \<Rightarrow> Inl e
         | Inr results \<Rightarrow>
             (let moves = map fst results; scores = map snd results in
              if scores = [] then Inl ValueError
              else
                (let bestScore = (if maximize then Max (set scores) else Min (set scores)) in
                 case index scores bestScore of
                   Inl e \<Rightarrow> Inl e
                 | Inr i \<Rightarrow>
                     (case getitem moves i of
                        Inl e \<Rightarrow> Inl e
                      | Inr bestMove \<Rightarrow> Inr (bestMove, bestScore))))))"
  by pat_completeness auto
termination
proof (relation "measure (\<lambda>(self, maximize). num_empty self)")
  show "wf (measure (\<lambda>(self, maximize). num_empty self))"
    by simp
next
  fix self :: TicTacToe and maximize :: bool and possibleMove possibleGame
  fix x2 :: "error option"
  assume avail: "possibleMove \<in> set (get_available_moves self)"
    and call: "(x2, possibleGame) = add_move self possibleMove"
  from avail obtain i where i: "possibleMove = int i" "i < length (currentBoard self)"
    "currentBoard self ! i = '' ''"
    by (force simp: get_available_moves_def in_set_enumerate_eq)
  have shrink: "Suc (length (filter P (xs[j := v]))) = length (filter P xs)"
    if "j < length xs" "P (xs ! j)" "\<not> P v" for P :: "string \<Rightarrow> bool" and xs j v
    using that
  proof (induction xs arbitrary: j)
    case Nil
    then show ?case by simp
  next
    case (Cons x xs)
    then show ?case
      by (cases j) auto
  qed
  have "Suc (length (filter (\<lambda>value. value = '' '') ((currentBoard self)[i := s])))
          = length (filter (\<lambda>value. value = '' '') (currentBoard self))"
    if "s \<noteq> '' ''" for s
    using i that by (intro shrink) auto
  then have "length (filter (\<lambda>value. value = '' '') ((currentBoard self)[i := s]))
          < length (filter (\<lambda>value. value = '' '') (currentBoard self))"
    if "s \<noteq> '' ''" for s
    using that by (simp add: less_eq_Suc_le)
  with i call have "num_empty possibleGame < num_empty self"
    by (auto simp: add_move_def setitem_def Let_def num_empty_def split: if_splits)
  then show "((possibleGame, \<not> maximize), (self, maximize))
               \<in> measure (\<lambda>(self, maximize). num_empty self)"
    by simp
qed

declare minimax.simps [simp del]

section \<open>States of a game\<close>

text \<open>
  The states the program can be in: \<^verbatim>\<open>play_tictactoe\<close> and \<^verbatim>\<open>minimax\<close> start from
  \<^verbatim>\<open>TicTacToe()\<close> and call \<^verbatim>\<open>add_move\<close> only with an index taken from
  \<^verbatim>\<open>get_available_moves\<close> (\<^verbatim>\<open>get_player_move\<close> re-prompts until the index is one).
  \<open>reachable\<close> allows any such sequence of moves.
\<close>

inductive reachable :: "TicTacToe \<Rightarrow> bool" where
  start: "reachable init"
| move: "reachable self \<Longrightarrow> m \<in> set (get_available_moves self)
           \<Longrightarrow> reachable (snd (add_move self m))"

text \<open>
  \<open>wellformed\<close> is narrower: as in \<^verbatim>\<open>play_tictactoe\<close> and in the recursion of
  \<^verbatim>\<open>minimax\<close>, no move is added once \<^verbatim>\<open>check_win\<close> has reported the game over.
\<close>

inductive wellformed :: "TicTacToe \<Rightarrow> bool" where
  wf_start: "wellformed init"
| wf_move: "wellformed self \<Longrightarrow> \<not> snd (check_win self)
              \<Longrightarrow> m \<in> set (get_available_moves self)
              \<Longrightarrow> wellformed (snd (add_move self m))"

text \<open>
  The eight winning lines as the specification lists them (rows, columns, diagonals), and
  what it means for a player's moves to contain one; \<^verbatim>\<open>check_win\<close> is compared with this.
\<close>

definition WinningLine :: "int set set" where
  "WinningLine =
     {{0,1,2}, {3,4,5}, {6,7,8}, {0,3,6}, {1,4,7}, {2,5,8}, {0,4,8}, {2,4,6}}"

definition has_line :: "int list \<Rightarrow> bool" where
  "has_line moves = (\<exists>line \<in> WinningLine. line \<subseteq> set moves)"

text \<open>
  Concrete states: \<open>play ms\<close> is the object after \<^verbatim>\<open>add_move(m)\<close> for each \<open>m\<close> of \<open>ms\<close> on a new
  game. \<open>valid_moves\<close> checks that each index was available when it was played, and
  \<open>valid_play\<close> also that the game was not over before it.
\<close>

definition play :: "int list \<Rightarrow> TicTacToe" where
  "play ms = fold (\<lambda>m self. snd (add_move self m)) ms init"

fun valid_moves :: "TicTacToe \<Rightarrow> int list \<Rightarrow> bool" where
  "valid_moves self [] = True"
| "valid_moves self (m # ms) =
     (m \<in> set (get_available_moves self) \<and> valid_moves (snd (add_move self m)) ms)"

fun valid_play :: "TicTacToe \<Rightarrow> int list \<Rightarrow> bool" where
  "valid_play self [] = True"
| "valid_play self (m # ms) =
     (\<not> snd (check_win self) \<and> m \<in> set (get_available_moves self) \<and>
      valid_play (snd (add_move self m)) ms)"

text \<open>
  A checker for bounds on the score of \<^verbatim>\<open>minimax\<close>, used to compute the score of the empty
  board without visiting the whole game tree. \<open>bound f up k\<close> works on the two players'
  cells and the free cells; with \<open>up\<close> it establishes that the score is at least \<open>k\<close>,
  without it that the score is at most \<open>k\<close>. A maximum is at least \<open>k\<close> as soon as one of
  its arguments is, so the checker stops at the first such move (\<open>lazy_ex\<close>), and a
  minimum is at least \<open>k\<close> when all arguments are (\<open>lazy_all\<close>). It is proved sound with
  respect to \<^verbatim>\<open>minimax\<close> below; the fuel \<open>f\<close> bounds the depth.
\<close>

definition sat :: "bool \<Rightarrow> int \<Rightarrow> int \<Rightarrow> bool" where
  "sat up k s = (if up then k \<le> s else s \<le> k)"

fun lazy_ex :: "('a \<Rightarrow> bool) \<Rightarrow> 'a list \<Rightarrow> bool" where
  "lazy_ex P [] = False"
| "lazy_ex P (x # xs) = (if P x then True else lazy_ex P xs)"

fun lazy_all :: "('a \<Rightarrow> bool) \<Rightarrow> 'a list \<Rightarrow> bool" where
  "lazy_all P [] = True"
| "lazy_all P (x # xs) = (if P x then lazy_all P xs else False)"

definition wins :: "int list \<Rightarrow> bool" where
  "wins cells = lazy_ex (\<lambda>combo. issubset combo cells) winningCombos"

fun bound :: "nat \<Rightarrow> bool \<Rightarrow> int \<Rightarrow> int list \<Rightarrow> int list \<Rightarrow> int list \<Rightarrow> int \<Rightarrow> bool \<Rightarrow> bool \<Rightarrow> bool"
  where
  "bound 0 up k p1 p2 free n one mx = False"
| "bound (Suc f) up k p1 p2 free n one mx =
     (if wins p1 then sat up k (n - 10)
      else if wins p2 then sat up k (10 - n)
      else if free = [] then sat up k 0
      else if mx = up then
        lazy_ex (\<lambda>m. if one then bound f up k (m # p1) p2 (removeAll m free) (n + 1) False (\<not> mx)
                      else bound f up k p1 (m # p2) (removeAll m free) (n + 1) True (\<not> mx)) free
      else
        lazy_all (\<lambda>m. if one then bound f up k (m # p1) p2 (removeAll m free) (n + 1) False (\<not> mx)
                       else bound f up k p1 (m # p2) (removeAll m free) (n + 1) True (\<not> mx)) free)"

section \<open>The search on a heap of objects\<close>

text \<open>
  In Python the game is an object that holds references to four list objects, and
  \<^verbatim>\<open>add_move\<close> mutates those lists in place. To state that \<^verbatim>\<open>minimax\<close> does not change
  its argument, the objects are put in an explicit store: a heap is a list of objects, a
  reference is an index into it, and allocation appends. An \<open>Instance\<close> holds the
  references of \<^verbatim>\<open>currentBoard\<close>, \<^verbatim>\<open>playerOneMoves\<close>, \<^verbatim>\<open>playerTwoMoves\<close> and
  \<^verbatim>\<open>allMoves\<close> and the integer \<^verbatim>\<open>currentPlayer\<close>; strings and integers are immutable
  and stay values.
\<close>

type_synonym ref = nat

datatype obj = StrList "string list" | IntList "int list" | Instance ref ref ref ref int

type_synonym heap = "obj list"



text \<open>
  Reading through references. A dangling reference or an attribute of the wrong kind does
  not yield a game; the operations below raise \<^verbatim>\<open>AttributeError\<close> then.
\<close>

definition lookup :: "heap \<Rightarrow> ref \<Rightarrow> obj option" where
  "lookup h r = (if r < length h then Some (h ! r) else None)"

definition str_list :: "heap \<Rightarrow> ref \<Rightarrow> string list option" where
  "str_list h r = (case lookup h r of Some (StrList xs) \<Rightarrow> Some xs | _ \<Rightarrow> None)"

definition int_list :: "heap \<Rightarrow> ref \<Rightarrow> int list option" where
  "int_list h r = (case lookup h r of Some (IntList xs) \<Rightarrow> Some xs | _ \<Rightarrow> None)"

definition read_game :: "heap \<Rightarrow> ref \<Rightarrow> TicTacToe option" where
  "read_game h self =
     (case lookup h self of
        Some (Instance b p1 p2 al cp) \<Rightarrow>
          (case str_list h b of None \<Rightarrow> None | Some board \<Rightarrow>
           case int_list h p1 of None \<Rightarrow> None | Some one \<Rightarrow>
           case int_list h p2 of None \<Rightarrow> None | Some two \<Rightarrow>
           case int_list h al of None \<Rightarrow> None | Some both \<Rightarrow>
             Some \<lparr>currentBoard = board, playerOneMoves = one, playerTwoMoves = two,
                   allMoves = both, currentPlayer = cp\<rparr>)
      | _ \<Rightarrow> None)"

text \<open>\<^verbatim>\<open>xs.append(x)\<close> and \<^verbatim>\<open>add_move\<close>, mutating the objects in the heap.\<close>

definition list_append :: "heap \<Rightarrow> ref \<Rightarrow> int \<Rightarrow> heap" where
  "list_append h r x =
     (case lookup h r of Some (IntList xs) \<Rightarrow> h[r := IntList (xs @ [x])] | _ \<Rightarrow> h)"

definition add_move_h :: "heap \<Rightarrow> ref \<Rightarrow> int \<Rightarrow> error option \<times> heap" where
  "add_move_h h self moveIndex =
     (case (lookup h self, read_game h self) of
        (Some (Instance b p1 p2 al cp), Some g) \<Rightarrow>
          (let (h1, symbol) =
                 (if cp = PLAYER_ONE then (list_append h p1 moveIndex, ''x'')
                  else (list_append h p2 moveIndex, ''o''));
               h2 = list_append h1 al moveIndex
           in case str_list h2 b of
                None \<Rightarrow> (Some AttributeError, h2)
              | Some board \<Rightarrow>
                  (case setitem board moveIndex symbol of
                     Inl e \<Rightarrow> (Some e, h2)
                   | Inr board' \<Rightarrow>
                       (None, h2[b := StrList board',
                                 self := Instance b p1 p2 al ((cp + 1) mod 2)])))
      | _ \<Rightarrow> (Some AttributeError, h))"

text \<open>
  \<^verbatim>\<open>copy.deepcopy(self)\<close>: a new instance whose attributes are copies of the lists of
  \<open>self\<close>. The memo of \<^verbatim>\<open>deepcopy\<close> maps every object already copied to its copy, so a
  list that two attributes share is copied once.
\<close>

definition copy_list :: "(ref \<times> ref) list \<Rightarrow> heap \<Rightarrow> ref \<Rightarrow> ref \<times> (ref \<times> ref) list \<times> heap" where
  "copy_list memo h r =
     (case map_of memo r of
        Some r' \<Rightarrow> (r', memo, h)
      | None \<Rightarrow> (length h, (r, length h) # memo, h @ [h ! r]))"

definition deepcopy :: "heap \<Rightarrow> ref \<Rightarrow> ref \<times> heap" where
  "deepcopy h self =
     (case lookup h self of
        Some (Instance b p1 p2 al cp) \<Rightarrow>
          (let (b', memo1, h1) = copy_list [] h b;
               (p1', memo2, h2) = copy_list memo1 h1 p1;
               (p2', memo3, h3) = copy_list memo2 h2 p2;
               (al', memo4, h4) = copy_list memo3 h3 al
           in (length h4, h4 @ [Instance b' p1' p2' al' cp]))
      | _ \<Rightarrow> (self, h))"

text \<open>
  The two halves of the body of \<^verbatim>\<open>minimax\<close>: the result when the game is over, and the
  choice of the best move after the loop.
\<close>

definition terminal_result :: "TicTacToe \<Rightarrow> int \<Rightarrow> error + int \<times> int" where
  "terminal_result self winner =
     (let numMoves = get_num_moves self in
      if allMoves self = [] then Inl IndexError
      else
        (let bestMove = last (allMoves self) in
         if winner = PLAYER_ONE then Inr (bestMove, numMoves - 10)
         else if winner = PLAYER_TWO then Inr (bestMove, 10 - numMoves)
         else Inr (bestMove, 0)))"

definition best_of :: "bool \<Rightarrow> int list \<Rightarrow> int list \<Rightarrow> error + int \<times> int" where
  "best_of maximize moves scores =
     (if scores = [] then Inl ValueError
      else
        (let bestScore = (if maximize then Max (set scores) else Min (set scores)) in
         case index scores bestScore of
           Inl e \<Rightarrow> Inl e
         | Inr i \<Rightarrow>
             (case getitem moves i of
                Inl e \<Rightarrow> Inl e
              | Inr bestMove \<Rightarrow> Inr (bestMove, bestScore))))"

text \<open>
  \<^verbatim>\<open>minimax\<close> on the heap. It returns its result and the heap after the call. The loop
  threads the heap through its iterations, so whether the recursion ends depends on what
  the calls do to the heap; it is therefore defined with fuel, \<open>None\<close> meaning that the
  fuel ran out, and shown below to return whenever the fuel exceeds the number of empty
  cells.
\<close>

fun minimax_h :: "nat \<Rightarrow> heap \<Rightarrow> ref \<Rightarrow> bool \<Rightarrow> ((error + int \<times> int) \<times> heap) option"
  and minimax_loop :: "nat \<Rightarrow> heap \<Rightarrow> ref \<Rightarrow> bool \<Rightarrow> int list \<Rightarrow> int list \<Rightarrow> int list
                        \<Rightarrow> ((error + int \<times> int) \<times> heap) option"
  where
  "minimax_h 0 h self maximize = None"
| "minimax_h (Suc fuel) h self maximize =
     (case read_game h self of
        None \<Rightarrow> Some (Inl AttributeError, h)
      | Some g \<Rightarrow>
          (let (winner, isOver) = check_win g in
           if isOver then Some (terminal_result g winner, h)
           else minimax_loop fuel h self maximize (get_available_moves g) [] []))"
| "minimax_loop fuel h self maximize [] moves scores =
     Some (best_of maximize moves scores, h)"
| "minimax_loop fuel h self maximize (possibleMove # rest) moves scores =
     (let (possibleGame, h1) = deepcopy h self;
          (e, h2) = add_move_h h1 possibleGame possibleMove
      in case e of
           Some err \<Rightarrow> Some (Inl err, h2)
         | None \<Rightarrow>
             (case minimax_h fuel h2 possibleGame (\<not> maximize) of
                None \<Rightarrow> None
              | Some (Inl err, h3) \<Rightarrow> Some (Inl err, h3)
              | Some (Inr (nextMove, nextScore), h3) \<Rightarrow>
                  minimax_loop fuel h3 self maximize rest
                    (moves @ [if maximize then possibleMove else nextMove])
                    (scores @ [nextScore])))"

text \<open>
  \<open>valid h self g\<close>: the object at \<open>self\<close> in heap \<open>h\<close> is a game with the attribute
  values of \<open>g\<close>, its four lists being four different objects, as \<^verbatim>\<open>__init__\<close> and
  \<^verbatim>\<open>deepcopy\<close> create them. \<open>alloc h g\<close> is the heap \<open>h\<close> with such an object added.
\<close>

definition valid :: "heap \<Rightarrow> ref \<Rightarrow> TicTacToe \<Rightarrow> bool" where
  "valid h self g =
     (case lookup h self of
        Some (Instance b p1 p2 al cp) \<Rightarrow> distinct [b, p1, p2, al] \<and> read_game h self = Some g
      | _ \<Rightarrow> False)"

definition alloc :: "heap \<Rightarrow> TicTacToe \<Rightarrow> heap" where
  "alloc h g =
     h @ [StrList (currentBoard g), IntList (playerOneMoves g), IntList (playerTwoMoves g),
          IntList (allMoves g),
          Instance (length h) (length h + 1) (length h + 2) (length h + 3) (currentPlayer g)]"

text \<open>
  One iteration of the loop of \<^verbatim>\<open>minimax\<close> and the loop from a given point on, as
  functions of the value of \<open>self\<close>.
\<close>

definition branch :: "TicTacToe \<Rightarrow> bool \<Rightarrow> int \<Rightarrow> error + int \<times> int" where
  "branch self maximize possibleMove =
     (case add_move self possibleMove of
        (Some e, possibleGame) \<Rightarrow> Inl e
      | (None, possibleGame) \<Rightarrow>
          (case minimax possibleGame (\<not> maximize) of
             Inl e \<Rightarrow> Inl e
           | Inr (nextMove, nextScore) \<Rightarrow>
               Inr (if maximize then possibleMove else nextMove, nextScore)))"

definition loop_result :: "TicTacToe \<Rightarrow> bool \<Rightarrow> int list \<Rightarrow> int list \<Rightarrow> int list \<Rightarrow> error + int \<times> int" where
  "loop_result self maximize rest moves scores =
     (case collect (map (branch self maximize) rest) of
        Inl e \<Rightarrow> Inl e
      | Inr results \<Rightarrow> best_of maximize (moves @ map fst results) (scores @ map snd results))"

section \<open>Applying a move\<close>

lemma length_get_available_moves:
  "length (get_available_moves self) = num_empty self"
proof -
  have "length (filter (\<lambda>(index, value). P value) (enumerate n xs)) = length (filter P xs)"
    for P :: "string \<Rightarrow> bool" and n xs
    by (induction xs arbitrary: n) auto
  then show ?thesis
    by (simp add: get_available_moves_def num_empty_def)
qed

lemma set_get_available_moves:
  "set (get_available_moves self) =
     {int i |i. i < length (currentBoard self) \<and> currentBoard self ! i = '' ''}"
  by (force simp: get_available_moves_def in_set_enumerate_eq image_iff)

lemma length_filter_update_Suc:
  assumes "i < length xs" and "P (xs ! i)" and "\<not> P v"
  shows "Suc (length (filter P (xs[i := v]))) = length (filter P xs)"
  using assms
proof (induction xs arbitrary: i)
  case Nil
  then show ?case by simp
next
  case (Cons x xs)
  then show ?case
    by (cases i) auto
qed

lemma add_move_available:
  assumes "m \<in> set (get_available_moves self)"
  shows "fst (add_move self m) = None"
    and "Suc (num_empty (snd (add_move self m))) = num_empty self"
proof -
  from assms obtain i where i: "m = int i" "i < length (currentBoard self)"
    "currentBoard self ! i = '' ''"
    by (auto simp: set_get_available_moves)
  show "fst (add_move self m) = None"
    using i by (simp add: add_move_def setitem_def Let_def)
  have "Suc (length (filter (\<lambda>value. value = '' '') ((currentBoard self)[i := s])))
          = length (filter (\<lambda>value. value = '' '') (currentBoard self))"
    if "s \<noteq> '' ''" for s
    using i that by (intro length_filter_update_Suc) auto
  then show "Suc (num_empty (snd (add_move self m))) = num_empty self"
    using i by (simp add: add_move_def setitem_def Let_def num_empty_def)
qed

lemma add_move_in_range:
  assumes "0 \<le> m" and "m < int (length (currentBoard self))"
  shows "add_move self m =
     (None, self\<lparr>currentBoard := (currentBoard self)[nat m := (if currentPlayer self = PLAYER_ONE then ''x'' else ''o'')],
       playerOneMoves := (if currentPlayer self = PLAYER_ONE then playerOneMoves self @ [m] else playerOneMoves self),
       playerTwoMoves := (if currentPlayer self = PLAYER_ONE then playerTwoMoves self else playerTwoMoves self @ [m]),
       allMoves := allMoves self @ [m],
       currentPlayer := (currentPlayer self + 1) mod 2\<rparr>)"
  using assms by (simp add: add_move_def setitem_def Let_def)

lemma available_in_range:
  assumes "m \<in> set (get_available_moves self)"
  shows "0 \<le> m" and "m < int (length (currentBoard self))"
    and "currentBoard self ! nat m = '' ''"
  using assms by (auto simp: set_get_available_moves)

lemma add_move_valid:
  assumes "m \<in> set (get_available_moves self)"
  shows "add_move self m =
     (None, self\<lparr>currentBoard := (currentBoard self)[nat m := (if currentPlayer self = PLAYER_ONE then ''x'' else ''o'')],
       playerOneMoves := (if currentPlayer self = PLAYER_ONE then playerOneMoves self @ [m] else playerOneMoves self),
       playerTwoMoves := (if currentPlayer self = PLAYER_ONE then playerTwoMoves self else playerTwoMoves self @ [m]),
       allMoves := allMoves self @ [m],
       currentPlayer := (currentPlayer self + 1) mod 2\<rparr>)"
  using available_in_range(1,2) [OF assms] by (rule add_move_in_range)

text \<open>
  C1 (as amended). \<^verbatim>\<open>add_move\<close> has no validation and no \<^verbatim>\<open>InvalidMoveError\<close>: it never
  looks at the cell. On a board of nine cells it raises (Python's \<^verbatim>\<open>IndexError\<close>) exactly
  when the index is below \<open>-9\<close> or above \<open>8\<close>; for every index in \<open>[0,8]\<close>, whether the
  cell is empty or not, it succeeds, appends the index to the current player's history and
  to the combined history, overwrites the cell with the current player's mark and advances
  the turn indicator. Rejecting an occupied cell is the callers' work.
\<close>

theorem add_move_unchecked:
  assumes "length (currentBoard self) = 9"
  shows "(fst (add_move self i) = Some IndexError \<longleftrightarrow> i < - 9 \<or> 8 < i) \<and>
         (fst (add_move self i) = None \<longleftrightarrow> - 9 \<le> i \<and> i \<le> 8) \<and>
         (0 \<le> i \<and> i \<le> 8 \<longrightarrow>
            snd (add_move self i) =
              self\<lparr>currentBoard := (currentBoard self)[nat i :=
                       (if currentPlayer self = PLAYER_ONE then ''x'' else ''o'')],
                   playerOneMoves := (if currentPlayer self = PLAYER_ONE
                                      then playerOneMoves self @ [i] else playerOneMoves self),
                   playerTwoMoves := (if currentPlayer self = PLAYER_ONE
                                      then playerTwoMoves self else playerTwoMoves self @ [i]),
                   allMoves := allMoves self @ [i],
                   currentPlayer := (currentPlayer self + 1) mod 2\<rparr>)"
  using assms by (auto simp: add_move_def setitem_def Let_def)

text \<open>C1, witness: player two moves onto cell 0, which player one holds.\<close>

theorem add_move_unchecked_witness:
  "length (currentBoard (snd (add_move init 0))) = 9 \<and>
   fst (add_move (snd (add_move init 0)) 0) = None \<and>
   snd (add_move (snd (add_move init 0)) 0) =
     \<lparr>currentBoard = [''o'', '' '', '' '', '' '', '' '', '' '', '' '', '' '', '' ''],
      playerOneMoves = [0], playerTwoMoves = [0], allMoves = [0, 0], currentPlayer = 0\<rparr>"
proof -
  have len: "length (currentBoard (snd (add_move init 0))) = 9"
    by (simp add: add_move_def setitem_def init_def Let_def)
  from add_move_unchecked [OF len, of 0] show ?thesis
    by (simp add: add_move_def setitem_def init_def Let_def PLAYER_ONE_def eval_nat_numeral)
qed

text \<open>
  C1, counterexample to the claim as stated: a move onto an occupied cell does not fail,
  and it changes the state.
\<close>

theorem add_move_occupied_counterexample:
  "currentBoard (snd (add_move init 0)) ! 0 \<noteq> '' '' \<and>
   fst (add_move (snd (add_move init 0)) 0) = None \<and>
   snd (add_move (snd (add_move init 0)) 0) \<noteq> snd (add_move init 0)"
  by (simp add: add_move_def setitem_def init_def Let_def PLAYER_ONE_def)

section \<open>Invariants of the reachable states\<close>

lemma reachable_length_board: "reachable g \<Longrightarrow> length (currentBoard g) = 9"
  by (induction rule: reachable.induct) (simp_all add: init_def add_move_valid)

lemma reachable_fold:
  assumes "reachable self" and "valid_moves self ms"
  shows "reachable (fold (\<lambda>m self. snd (add_move self m)) ms self)"
  using assms by (induction ms arbitrary: self) (auto intro: reachable.move)

lemma reachable_play: "valid_moves init ms \<Longrightarrow> reachable (play ms)"
  unfolding play_def by (rule reachable_fold [OF reachable.start])

lemma wellformed_fold:
  assumes "wellformed self" and "valid_play self ms"
  shows "wellformed (fold (\<lambda>m self. snd (add_move self m)) ms self)"
  using assms by (induction ms arbitrary: self) (auto intro: wellformed.wf_move)

lemma wellformed_play: "valid_play init ms \<Longrightarrow> wellformed (play ms)"
  unfolding play_def by (rule wellformed_fold [OF wellformed.wf_start])

lemma reachable_count:
  assumes "reachable self"
  shows "num_empty self + length (allMoves self) = 9"
  using assms
proof (induction rule: reachable.induct)
  case start
  show ?case by (simp add: num_empty_def init_def)
next
  case (move self m)
  have "allMoves (snd (add_move self m)) = allMoves self @ [m]"
    by (simp add: add_move_valid [OF move.hyps(2)])
  with add_move_available(2) [OF move.hyps(2)] move.IH show ?case
    by simp
qed

text \<open>
  C6. In every state reached from the empty state by valid moves, the number of available
  moves plus the length of the combined history is 9.
\<close>

theorem available_plus_history:
  assumes "reachable self"
  shows "length (get_available_moves self) + length (allMoves self) = 9"
  using reachable_count [OF assms] by (simp add: length_get_available_moves)

text \<open>C6, witness: the state after the first move, to the centre.\<close>

theorem available_plus_history_witness:
  "reachable (snd (add_move init 4)) \<and>
   length (get_available_moves (snd (add_move init 4)))
     + length (allMoves (snd (add_move init 4))) = 9"
proof -
  have "4 \<in> set (get_available_moves init)"
    by code_simp
  then have r: "reachable (snd (add_move init 4))"
    by (rule reachable.move [OF reachable.start])
  from available_plus_history [OF r] r show ?thesis
    by simp
qed

lemma reachable_currentPlayer:
  assumes "reachable self"
  shows "currentPlayer self = int (length (allMoves self)) mod 2"
  using assms
proof (induction rule: reachable.induct)
  case start
  show ?case by (simp add: init_def PLAYER_ONE_def)
next
  case (move self m)
  then show ?case
    by (simp add: add_move_valid [OF move.hyps(2)] mod_simps add.commute)
qed

text \<open>
  C7. In every reachable state the player to move is player one when the number of
  completed moves is even and player two when it is odd, and every valid move flips it.
\<close>

theorem turn_indicator_parity:
  assumes "reachable self"
  shows "currentPlayer self =
           (if get_num_moves self mod 2 = 0 then PLAYER_ONE else PLAYER_TWO) \<and>
         (m \<in> set (get_available_moves self) \<longrightarrow>
            currentPlayer (snd (add_move self m)) =
              (if currentPlayer self = PLAYER_ONE then PLAYER_TWO else PLAYER_ONE))"
proof -
  have cp: "currentPlayer self = get_num_moves self mod 2"
    using reachable_currentPlayer [OF assms] by (simp add: get_num_moves_def)
  have "currentPlayer (snd (add_move self m)) = (currentPlayer self + 1) mod 2"
    if "m \<in> set (get_available_moves self)"
    by (simp add: add_move_valid [OF that])
  with cp show ?thesis
    by (auto simp: PLAYER_ONE_def PLAYER_TWO_def)
qed

text \<open>C7, witness: after one move it is player two's turn, after two player one's.\<close>

theorem turn_indicator_parity_witness:
  "reachable (snd (add_move init 4)) \<and> 0 \<in> set (get_available_moves (snd (add_move init 4))) \<and>
   get_num_moves (snd (add_move init 4)) = 1 \<and>
   currentPlayer (snd (add_move init 4)) = PLAYER_TWO \<and>
   currentPlayer (snd (add_move (snd (add_move init 4)) 0)) = PLAYER_ONE"
proof -
  have "4 \<in> set (get_available_moves init)"
    by code_simp
  then have r: "reachable (snd (add_move init 4))"
    by (rule reachable.move [OF reachable.start])
  have a: "0 \<in> set (get_available_moves (snd (add_move init 4)))"
    by code_simp
  have n: "get_num_moves (snd (add_move init 4)) = 1"
    by code_simp
  from turn_indicator_parity [OF r, of 0] r a n show ?thesis
    by (simp add: PLAYER_ONE_def PLAYER_TWO_def)
qed

lemma reachable_histories:
  assumes "reachable self"
  shows "playerOneMoves self = nths (allMoves self) {i. even i} \<and>
         playerTwoMoves self = nths (allMoves self) {i. odd i}"
  using assms
proof (induction rule: reachable.induct)
  case start
  show ?case by (simp add: init_def)
next
  case (move self m)
  have cp: "currentPlayer self = int (length (allMoves self)) mod 2"
    by (rule reachable_currentPlayer [OF move.hyps(1)])
  show ?case
  proof (cases "even (length (allMoves self))")
    case True
    with cp have "currentPlayer self = PLAYER_ONE"
      by (simp add: PLAYER_ONE_def)
    with True move.IH show ?thesis
      by (simp add: add_move_valid [OF move.hyps(2)] nths_append)
  next
    case False
    then have "int (length (allMoves self)) mod 2 = 1"
      by presburger
    with cp have "currentPlayer self \<noteq> PLAYER_ONE"
      by (simp add: PLAYER_ONE_def)
    with False move.IH show ?thesis
      by (simp add: add_move_valid [OF move.hyps(2)] nths_append)
  qed
qed

text \<open>
  C10. \<^verbatim>\<open>add_move\<close> takes the object and an index only; the history that receives the
  index and the mark written are chosen by \<^verbatim>\<open>currentPlayer\<close>. So in every reachable state
  player one's history is the entries of the combined history at even positions and player
  two's the entries at odd positions.
\<close>

theorem histories_interleave:
  assumes "reachable self"
  shows "playerOneMoves self = nths (allMoves self) {i. even i} \<and>
         playerTwoMoves self = nths (allMoves self) {i. odd i} \<and>
         (m \<in> set (get_available_moves self) \<longrightarrow>
            (if currentPlayer self = PLAYER_ONE
             then playerOneMoves (snd (add_move self m)) = playerOneMoves self @ [m] \<and>
                  playerTwoMoves (snd (add_move self m)) = playerTwoMoves self \<and>
                  currentBoard (snd (add_move self m)) ! nat m = ''x''
             else playerOneMoves (snd (add_move self m)) = playerOneMoves self \<and>
                  playerTwoMoves (snd (add_move self m)) = playerTwoMoves self @ [m] \<and>
                  currentBoard (snd (add_move self m)) ! nat m = ''o''))"
proof -
  note reachable_histories [OF assms]
  moreover have "currentBoard (snd (add_move self m)) ! nat m =
      (if currentPlayer self = PLAYER_ONE then ''x'' else ''o'')"
    if "m \<in> set (get_available_moves self)"
    using available_in_range [OF that] by (simp add: add_move_valid [OF that])
  ultimately show ?thesis
    by (auto simp: add_move_valid)
qed

text \<open>C10, witness: the moves 4, 0, 8.\<close>

theorem histories_interleave_witness:
  "reachable (snd (add_move (snd (add_move init 4)) 0)) \<and>
   8 \<in> set (get_available_moves (snd (add_move (snd (add_move init 4)) 0))) \<and>
   currentPlayer (snd (add_move (snd (add_move init 4)) 0)) = PLAYER_ONE \<and>
   playerOneMoves (snd (add_move (snd (add_move (snd (add_move init 4)) 0)) 8)) = [4, 8] \<and>
   playerTwoMoves (snd (add_move (snd (add_move (snd (add_move init 4)) 0)) 8)) = [0]"
proof -
  have "4 \<in> set (get_available_moves init)"
    by code_simp
  then have "reachable (snd (add_move init 4))"
    by (rule reachable.move [OF reachable.start])
  moreover have "0 \<in> set (get_available_moves (snd (add_move init 4)))"
    by code_simp
  ultimately have r: "reachable (snd (add_move (snd (add_move init 4)) 0))"
    by (rule reachable.move)
  have a: "8 \<in> set (get_available_moves (snd (add_move (snd (add_move init 4)) 0)))"
    by code_simp
  have c: "currentPlayer (snd (add_move (snd (add_move init 4)) 0)) = PLAYER_ONE"
    by code_simp
  have p: "playerOneMoves (snd (add_move (snd (add_move init 4)) 0)) = [4]"
       "playerTwoMoves (snd (add_move (snd (add_move init 4)) 0)) = [0]"
    by code_simp+
  from histories_interleave [OF r, of 8] r a c p show ?thesis
    by simp
qed


section \<open>Detecting the end of the game\<close>

lemma issubset_iff: "issubset combo moves \<longleftrightarrow> set combo \<subseteq> set moves"
  by (auto simp: issubset_def list_all_iff)

lemma has_line_iff:
  "has_line moves \<longleftrightarrow> (\<exists>combo \<in> set winningCombos. issubset combo moves)"
  by (simp add: has_line_def WinningLine_def winningCombos_def issubset_iff)

lemma fold_step_snd:
  "snd (fold (check_win_step self) cs acc) \<longleftrightarrow>
     snd acc \<or> (\<exists>c \<in> set cs. issubset c (playerOneMoves self) \<or> issubset c (playerTwoMoves self))"
  by (induction cs arbitrary: acc) (auto simp: check_win_step_def)

lemma fold_step_none:
  assumes "\<forall>c \<in> set cs. \<not> issubset c (playerOneMoves self) \<and> \<not> issubset c (playerTwoMoves self)"
  shows "fold (check_win_step self) cs acc = acc"
  using assms by (induction cs arbitrary: acc) (auto simp: check_win_step_def)

lemma fold_step_one:
  assumes "\<forall>c \<in> set cs. \<not> issubset c (playerTwoMoves self)"
    and "\<exists>c \<in> set cs. issubset c (playerOneMoves self)"
  shows "fst (fold (check_win_step self) cs acc) = PLAYER_ONE"
  using assms
proof (induction cs arbitrary: acc)
  case Nil
  then show ?case by simp
next
  case (Cons c cs)
  show ?case
  proof (cases "\<exists>c \<in> set cs. issubset c (playerOneMoves self)")
    case True
    with Cons show ?thesis by simp
  next
    case False
    with Cons.prems have "fold (check_win_step self) cs (check_win_step self c acc) = check_win_step self c acc"
      by (intro fold_step_none) simp
    moreover from False Cons.prems have "check_win_step self c acc = (PLAYER_ONE, True)"
      by (simp add: check_win_step_def)
    ultimately show ?thesis by simp
  qed
qed

lemma fold_step_two:
  assumes "\<forall>c \<in> set cs. \<not> issubset c (playerOneMoves self)"
    and "\<exists>c \<in> set cs. issubset c (playerTwoMoves self)"
  shows "fst (fold (check_win_step self) cs acc) = PLAYER_TWO"
  using assms
proof (induction cs arbitrary: acc)
  case Nil
  then show ?case by simp
next
  case (Cons c cs)
  show ?case
  proof (cases "\<exists>c \<in> set cs. issubset c (playerTwoMoves self)")
    case True
    with Cons show ?thesis by simp
  next
    case False
    with Cons.prems have "fold (check_win_step self) cs (check_win_step self c acc) = check_win_step self c acc"
      by (intro fold_step_none) simp
    moreover from False Cons.prems have "check_win_step self c acc = (PLAYER_TWO, True)"
      by (simp add: check_win_step_def)
    ultimately show ?thesis by simp
  qed
qed

lemma check_win_over:
  "snd (check_win self) \<longleftrightarrow>
     length (allMoves self) = 9 \<or> has_line (playerOneMoves self) \<or> has_line (playerTwoMoves self)"
  unfolding check_win_def fold_step_snd has_line_iff by auto

lemma check_win_winner:
  assumes "\<not> (has_line (playerOneMoves self) \<and> has_line (playerTwoMoves self))"
  shows "fst (check_win self) =
     (if has_line (playerOneMoves self) then PLAYER_ONE
      else if has_line (playerTwoMoves self) then PLAYER_TWO else - 1)"
proof -
  consider (one) "has_line (playerOneMoves self)" "\<not> has_line (playerTwoMoves self)"
    | (two) "\<not> has_line (playerOneMoves self)" "has_line (playerTwoMoves self)"
    | (none) "\<not> has_line (playerOneMoves self)" "\<not> has_line (playerTwoMoves self)"
    using assms by blast
  then show ?thesis
  proof cases
    case one
    then show ?thesis
      unfolding check_win_def has_line_iff by (simp add: fold_step_one)
  next
    case two
    then show ?thesis
      unfolding check_win_def has_line_iff by (simp add: fold_step_two)
  next
    case none
    then show ?thesis
      unfolding check_win_def has_line_iff by (simp add: fold_step_none)
  qed
qed

lemma not_has_line_Nil: "\<not> has_line []"
  by (simp add: has_line_def WinningLine_def)

lemma wellformed_reachable: "wellformed self \<Longrightarrow> reachable self"
  by (induction rule: wellformed.induct) (auto intro: reachable.intros)

lemma wellformed_one_winner:
  assumes "wellformed self"
  shows "\<not> (has_line (playerOneMoves self) \<and> has_line (playerTwoMoves self))"
  using assms
proof (induction rule: wellformed.induct)
  case wf_start
  show ?case by (simp add: init_def not_has_line_Nil)
next
  case (wf_move self m)
  from wf_move.hyps(2) have "\<not> has_line (playerOneMoves self)" "\<not> has_line (playerTwoMoves self)"
    by (simp_all add: check_win_over)
  then show ?case
    by (simp add: add_move_valid [OF wf_move.hyps(3)])
qed

lemma reachable_full:
  assumes "reachable self"
  shows "length (allMoves self) = 9 \<longleftrightarrow> '' '' \<notin> set (currentBoard self)"
proof -
  have "num_empty self = 0 \<longleftrightarrow> '' '' \<notin> set (currentBoard self)"
    by (auto simp: num_empty_def filter_empty_conv)
  with reachable_count [OF assms] show ?thesis
    by auto
qed

text \<open>
  Outside the well-formed states both players can hold a line: \<^verbatim>\<open>add_move\<close> accepts the
  sixth move below although player one has already won, and \<^verbatim>\<open>check_win\<close> then reports
  the player of the line it looks at last.
\<close>

lemma check_win_last_line_wins:
  "reachable (play [0, 3, 1, 4, 2, 5]) \<and> \<not> wellformed (play [0, 3, 1, 4, 2, 5]) \<and>
   has_line (playerOneMoves (play [0, 3, 1, 4, 2, 5])) \<and>
   check_win (play [0, 3, 1, 4, 2, 5]) = (PLAYER_TWO, True)"
proof -
  have r: "reachable (play [0, 3, 1, 4, 2, 5])"
    by (rule reachable_play) code_simp
  have p: "playerOneMoves (play [0, 3, 1, 4, 2, 5]) = [0, 1, 2]"
    "playerTwoMoves (play [0, 3, 1, 4, 2, 5]) = [3, 4, 5]"
    by code_simp+
  have l: "has_line [0, 1, 2]" "has_line [3, 4, 5]"
    by (simp_all add: has_line_def WinningLine_def)
  have c: "check_win (play [0, 3, 1, 4, 2, 5]) = (PLAYER_TWO, True)"
    by code_simp
  from wellformed_one_winner [of "play [0, 3, 1, 4, 2, 5]"] p l
  have "\<not> wellformed (play [0, 3, 1, 4, 2, 5])"
    by auto
  with r p l c show ?thesis
    by simp
qed

text \<open>
  C4. In every well-formed state \<^verbatim>\<open>check_win\<close> reports player one (0) as winner exactly
  when player one's moves contain one of the eight winning lines, player two (1) exactly
  when player two's do, and no winner (-1) otherwise; it reports the game over exactly when
  there is such a winner or no cell of the board is empty.
\<close>

theorem check_win_correct:
  assumes "wellformed self"
  shows "(fst (check_win self) = PLAYER_ONE \<longleftrightarrow> has_line (playerOneMoves self)) \<and>
         (fst (check_win self) = PLAYER_TWO \<longleftrightarrow> has_line (playerTwoMoves self)) \<and>
         (fst (check_win self) = - 1 \<longleftrightarrow>
            \<not> has_line (playerOneMoves self) \<and> \<not> has_line (playerTwoMoves self)) \<and>
         (snd (check_win self) \<longleftrightarrow>
            has_line (playerOneMoves self) \<or> has_line (playerTwoMoves self) \<or>
            '' '' \<notin> set (currentBoard self))"
  using check_win_winner [OF wellformed_one_winner [OF assms]]
    wellformed_one_winner [OF assms]
    check_win_over [of self] reachable_full [OF wellformed_reachable [OF assms]]
  by (auto simp: PLAYER_ONE_def PLAYER_TWO_def)

text \<open>C4, witness: player one completes the top row with the fifth move.\<close>

theorem check_win_correct_witness:
  "wellformed (play [0, 3, 1, 4, 2]) \<and>
   check_win (play [0, 3, 1, 4, 2]) = (PLAYER_ONE, True) \<and>
   has_line (playerOneMoves (play [0, 3, 1, 4, 2])) \<and>
   \<not> has_line (playerTwoMoves (play [0, 3, 1, 4, 2])) \<and>
   '' '' \<in> set (currentBoard (play [0, 3, 1, 4, 2]))"
proof -
  have w: "wellformed (play [0, 3, 1, 4, 2])"
    by (rule wellformed_play) code_simp
  have c: "check_win (play [0, 3, 1, 4, 2]) = (PLAYER_ONE, True)"
    by code_simp
  have b: "'' '' \<in> set (currentBoard (play [0, 3, 1, 4, 2]))"
    by code_simp
  from check_win_correct [OF w] w c b show ?thesis
    by (simp add: PLAYER_ONE_def PLAYER_TWO_def)
qed

section \<open>The search\<close>

lemma collect_Inr_map: "collect (map Inr xs) = Inr xs"
  by (induction xs) simp_all

lemma index_in_set:
  assumes "v \<in> set xs"
  shows "\<exists>i. index xs v = Inr i \<and> i < length xs \<and> xs ! i = v"
  using assms by (induction xs) auto

lemma over_nonempty:
  assumes "reachable self" and "snd (check_win self)"
  shows "allMoves self \<noteq> []"
proof
  assume "allMoves self = []"
  with reachable_histories [OF assms(1)] have "playerOneMoves self = []" "playerTwoMoves self = []"
    by simp_all
  with assms(2) \<open>allMoves self = []\<close> show False
    by (simp add: check_win_over not_has_line_Nil)
qed

lemma minimax_over:
  assumes "snd (check_win self)" and "allMoves self \<noteq> []"
  shows "minimax self maximize =
     Inr (last (allMoves self),
          if fst (check_win self) = PLAYER_ONE then get_num_moves self - 10
          else if fst (check_win self) = PLAYER_TWO then 10 - get_num_moves self
          else 0)"
proof -
  from assms(1) obtain w where "check_win self = (w, True)"
    by (cases "check_win self") simp
  with assms(2) show ?thesis
    by (subst minimax.simps) (simp add: Let_def)
qed

lemma minimax_not_over:
  assumes "\<not> snd (check_win self)"
    and "get_available_moves self \<noteq> []"
    and "\<And>m. m \<in> set (get_available_moves self)
           \<Longrightarrow> minimax (snd (add_move self m)) (\<not> maximize) = Inr (r m)"
  defines "S \<equiv> (\<lambda>m. snd (r m)) ` set (get_available_moves self)"
  shows "\<exists>m \<in> set (get_available_moves self).
           minimax self maximize =
             Inr (if maximize then m else fst (r m), if maximize then Max S else Min S) \<and>
           snd (r m) = (if maximize then Max S else Min S)"
proof -
  define ms where "ms = get_available_moves self"
  define results where "results = map (\<lambda>m. (if maximize then m else fst (r m), snd (r m))) ms"
  define best where "best = (if maximize then Max S else Min S)"
  have "(case add_move self m of
           (Some e, possibleGame) \<Rightarrow> Inl e
         | (None, possibleGame) \<Rightarrow>
             (case minimax possibleGame (\<not> maximize) of
                Inl e \<Rightarrow> Inl e
              | Inr (nextMove, nextScore) \<Rightarrow>
                  Inr (if maximize then m else nextMove, nextScore)))
        = Inr (if maximize then m else fst (r m), snd (r m))"
    if "m \<in> set ms" for m
  proof -
    from that have m: "m \<in> set (get_available_moves self)" by (simp add: ms_def)
    from add_move_available(1) [OF m]
    obtain g where "add_move self m = (None, g)"
      by (cases "add_move self m") simp
    with assms(3) [OF m] show ?thesis
      by (cases "r m") simp
  qed
  then have coll: "collect (map (\<lambda>possibleMove.
       case add_move self possibleMove of
           (Some e, possibleGame) \<Rightarrow> Inl e
         | (None, possibleGame) \<Rightarrow>
             (case minimax possibleGame (\<not> maximize) of
                Inl e \<Rightarrow> Inl e
              | Inr (nextMove, nextScore) \<Rightarrow>
                  Inr (if maximize then possibleMove else nextMove, nextScore))) ms) = Inr results"
    unfolding results_def by (simp add: collect_Inr_map [symmetric] cong: map_cong)
  have scores: "map snd results = map (\<lambda>m. snd (r m)) ms"
    by (simp add: results_def comp_def)
  have S: "set (map snd results) = S" "S \<noteq> {}" "finite S"
    using assms(2) by (auto simp: scores S_def ms_def)
  then have "best \<in> set (map snd results)"
    by (auto simp: best_def intro: Max_in Min_in)
  from index_in_set [OF this] obtain i where i: "index (map snd results) best = Inr i"
    "i < length results" "map snd results ! i = best"
    by auto
  then have get: "getitem (map fst results) i = Inr (fst (results ! i))"
    by (simp add: getitem_def)
  from assms(1) obtain w where cw: "check_win self = (w, False)"
    by (cases "check_win self") simp
  have ne: "(map snd results = []) = False"
    using assms(2) by (simp add: results_def ms_def)
  have bs: "(if maximize then Max (set (map snd results)) else Min (set (map snd results))) = best"
    unfolding S(1) best_def ..
  have "minimax self maximize = Inr (fst (results ! i), best)"
    by (subst minimax.simps)
      (simp only: cw prod.case if_False Let_def coll [unfolded ms_def] sum.case ne bs i(1) get)
  moreover have "i < length ms" using i(2) by (simp add: results_def)
  moreover have "fst (results ! i) = (if maximize then ms ! i else fst (r (ms ! i)))"
    and "snd (r (ms ! i)) = best"
    using i(2,3) by (simp_all add: results_def)
  ultimately show ?thesis
    unfolding ms_def [symmetric] best_def [symmetric] by (intro bexI [of _ "ms ! i"]) auto
qed

lemma not_over_available:
  assumes "reachable self" and "\<not> snd (check_win self)"
  shows "get_available_moves self \<noteq> []"
proof -
  from assms(2) have "length (allMoves self) \<noteq> 9"
    by (simp add: check_win_over)
  with reachable_count [OF assms(1)] have "num_empty self \<noteq> 0"
    by auto
  then show ?thesis
    by (simp add: length_get_available_moves [symmetric])
qed

lemma minimax_total:
  assumes "reachable self"
  shows "\<exists>r. minimax self maximize = Inr r"
  using assms
proof (induction "num_empty self" arbitrary: self maximize rule: less_induct)
  case less
  show ?case
  proof (cases "snd (check_win self)")
    case True
    from minimax_over [OF True over_nonempty [OF less.prems True]] show ?thesis
      by blast
  next
    case False
    define r where "r m = projr (minimax (snd (add_move self m)) (\<not> maximize))" for m
    have "minimax (snd (add_move self m)) (\<not> maximize) = Inr (r m)"
      if "m \<in> set (get_available_moves self)" for m
    proof -
      from add_move_available(2) [OF that]
      have "num_empty (snd (add_move self m)) < num_empty self"
        by simp
      from less.hyps [OF this reachable.move [OF less.prems that], of "\<not> maximize"]
      show ?thesis
        by (auto simp: r_def)
    qed
    from minimax_not_over [OF False not_over_available [OF less.prems False] this]
    show ?thesis
      by blast
  qed
qed

lemma available_after_move:
  assumes "m \<in> set (get_available_moves self)"
  shows "set (get_available_moves (snd (add_move self m))) = set (get_available_moves self) - {m}"
proof -
  from available_in_range [OF assms] obtain i where i: "m = int i" "i < length (currentBoard self)"
    by (metis nat_int nat_less_iff int_nat_eq)
  have "currentBoard (snd (add_move self m)) =
          (currentBoard self)[i := (if currentPlayer self = PLAYER_ONE then ''x'' else ''o'')]"
    using add_move_valid [OF assms] unfolding i(1) by simp
  then show ?thesis
    using i by (auto simp: set_get_available_moves nth_list_update)
qed

lemma minimax_move_maximize:
  assumes "reachable self" and "\<not> snd (check_win self)"
  shows "\<exists>m \<in> set (get_available_moves self). \<exists>sc. minimax self True = Inr (m, sc)"
proof -
  define r where "r m = projr (minimax (snd (add_move self m)) (\<not> True))" for m
  have "minimax (snd (add_move self m)) (\<not> True) = Inr (r m)"
    if "m \<in> set (get_available_moves self)" for m
    using minimax_total [OF reachable.move [OF assms(1) that], of "\<not> True"]
    by (auto simp: r_def)
  from minimax_not_over [OF assms(2) not_over_available [OF assms] this]
  show ?thesis
    by auto
qed

lemma minimax_move_any:
  assumes "reachable self" and "\<not> snd (check_win self)"
  shows "\<exists>m \<in> set (get_available_moves self). \<exists>sc. minimax self maximize = Inr (m, sc)"
proof (cases maximize)
  case True
  with minimax_move_maximize [OF assms] show ?thesis
    by simp
next
  case False
  define r where "r m = projr (minimax (snd (add_move self m)) True)" for m
  have r: "minimax (snd (add_move self m)) (\<not> maximize) = Inr (r m)"
    if "m \<in> set (get_available_moves self)" for m
    using minimax_total [OF reachable.move [OF assms(1) that], of True] False
    by (auto simp: r_def)
  from minimax_not_over [OF assms(2) not_over_available [OF assms] r] False
  obtain m sc where m: "m \<in> set (get_available_moves self)"
    and res: "minimax self maximize = Inr (fst (r m), sc)"
    by auto
  let ?child = "snd (add_move self m)"
  have child: "reachable ?child"
    by (rule reachable.move [OF assms(1) m])
  have "fst (r m) \<in> set (get_available_moves self)"
  proof (cases "snd (check_win ?child)")
    case True
    have "last (allMoves ?child) = m"
      by (simp add: add_move_valid [OF m])
    with minimax_over [OF True over_nonempty [OF child True], of True]
    obtain x where "minimax ?child True = Inr (m, x)"
      by simp
    with r [OF m] \<open>\<not> maximize\<close> have "r m = (m, x)"
      by simp
    with m show ?thesis
      by simp
  next
    case False
    from minimax_move_maximize [OF child False] r [OF m] \<open>\<not> maximize\<close>
    have "fst (r m) \<in> set (get_available_moves ?child)"
      by auto
    then show ?thesis
      by (simp add: available_after_move [OF m])
  qed
  with res show ?thesis
    by blast
qed

text \<open>
  C2. In every reachable state in which the game is not over, and for both values of
  \<open>maximize\<close>, \<^verbatim>\<open>minimax\<close> returns a move that is one of the available moves: an index in
  \<open>[0,8]\<close> whose cell is empty in the argument state.
\<close>

theorem minimax_move_available:
  assumes "reachable self" and "\<not> snd (check_win self)"
  shows "\<exists>bestMove bestScore. minimax self maximize = Inr (bestMove, bestScore) \<and>
           bestMove \<in> set (get_available_moves self) \<and>
           0 \<le> bestMove \<and> bestMove \<le> 8 \<and> currentBoard self ! nat bestMove = '' ''"
proof -
  from minimax_move_any [OF assms] obtain m sc
    where m: "m \<in> set (get_available_moves self)" "minimax self maximize = Inr (m, sc)"
    by blast
  with available_in_range [OF m(1)] reachable_length_board [OF assms(1)] show ?thesis
    by auto
qed

text \<open>
  C2, witness: seven moves played, cells 2 and 5 empty, player two to move; the search
  returns 5, which completes the line 3, 4, 5.
\<close>

theorem minimax_move_available_witness:
  "reachable (play [0, 3, 1, 4, 8, 7, 6]) \<and>
   \<not> snd (check_win (play [0, 3, 1, 4, 8, 7, 6])) \<and>
   get_available_moves (play [0, 3, 1, 4, 8, 7, 6]) = [2, 5] \<and>
   minimax (play [0, 3, 1, 4, 8, 7, 6]) True = Inr (5, 2) \<and>
   (\<exists>bestMove bestScore.
      minimax (play [0, 3, 1, 4, 8, 7, 6]) False = Inr (bestMove, bestScore) \<and>
      bestMove \<in> set (get_available_moves (play [0, 3, 1, 4, 8, 7, 6])))"
proof -
  have r: "reachable (play [0, 3, 1, 4, 8, 7, 6])"
    by (rule reachable_play) code_simp
  have c: "\<not> snd (check_win (play [0, 3, 1, 4, 8, 7, 6]))"
    by code_simp
  have a: "get_available_moves (play [0, 3, 1, 4, 8, 7, 6]) = [2, 5]"
    by code_simp
  have m: "minimax (play [0, 3, 1, 4, 8, 7, 6]) True = Inr (5, 2)"
    by code_simp
  from minimax_move_available [OF r c, of False] r c a m show ?thesis
    by auto
qed

text \<open>
  C9. \<^verbatim>\<open>minimax\<close> is defined by a recursion that terminates on every state (the
  termination proof above: the number of empty cells decreases). On every reachable state
  it returns a move and a score, raising no exception; there are at most nine available
  moves, and a valid move leaves exactly one fewer.
\<close>

theorem minimax_terminates:
  assumes "reachable self"
  shows "(\<exists>bestMove bestScore. minimax self maximize = Inr (bestMove, bestScore)) \<and>
         length (get_available_moves self) \<le> 9 \<and>
         (m \<in> set (get_available_moves self) \<longrightarrow>
            length (get_available_moves (snd (add_move self m))) + 1
              = length (get_available_moves self))"
  using minimax_total [OF assms, of maximize] reachable_count [OF assms]
    add_move_available(2) [of m self]
  by (auto simp: length_get_available_moves)

text \<open>C9, witness: the same state; the move to cell 2 leaves one available move.\<close>

theorem minimax_terminates_witness:
  "reachable (play [0, 3, 1, 4, 8, 7, 6]) \<and>
   2 \<in> set (get_available_moves (play [0, 3, 1, 4, 8, 7, 6])) \<and>
   length (get_available_moves (play [0, 3, 1, 4, 8, 7, 6])) = 2 \<and>
   length (get_available_moves (snd (add_move (play [0, 3, 1, 4, 8, 7, 6]) 2))) = 1 \<and>
   (\<exists>bestMove bestScore. minimax (play [0, 3, 1, 4, 8, 7, 6]) False = Inr (bestMove, bestScore))"
proof -
  have r: "reachable (play [0, 3, 1, 4, 8, 7, 6])"
    by (rule reachable_play) code_simp
  have a: "get_available_moves (play [0, 3, 1, 4, 8, 7, 6]) = [2, 5]"
    by code_simp
  from minimax_terminates [OF r, of False 2] r a show ?thesis
    by simp
qed

text \<open>
  C5. In every reachable state in which the game is over, \<^verbatim>\<open>minimax\<close> returns the score
  \<open>moveCount - 10\<close> when \<^verbatim>\<open>check_win\<close> reports player one as winner,
  \<open>10 - moveCount\<close> when it reports player two, and 0 when it reports none; the first is
  negative and the second positive.
\<close>

theorem terminal_score:
  assumes "reachable self" and "snd (check_win self)"
  shows "minimax self maximize =
           Inr (last (allMoves self),
                if fst (check_win self) = PLAYER_ONE then get_num_moves self - 10
                else if fst (check_win self) = PLAYER_TWO then 10 - get_num_moves self
                else 0) \<and>
         get_num_moves self - 10 < 0 \<and> 0 < 10 - get_num_moves self"
  using minimax_over [OF assms(2) over_nonempty [OF assms]] reachable_count [OF assms(1)]
  by (simp add: get_num_moves_def)


text \<open>C5, witness: player one has won with the fifth move, so the score is 5 - 10.\<close>

theorem terminal_score_witness:
  "reachable (play [0, 3, 1, 4, 2]) \<and> snd (check_win (play [0, 3, 1, 4, 2])) \<and>
   fst (check_win (play [0, 3, 1, 4, 2])) = PLAYER_ONE \<and>
   minimax (play [0, 3, 1, 4, 2]) True = Inr (2, - 5)"
proof -
  have r: "reachable (play [0, 3, 1, 4, 2])"
    by (rule reachable_play) code_simp
  have c: "check_win (play [0, 3, 1, 4, 2]) = (PLAYER_ONE, True)"
    by code_simp
  then have o: "snd (check_win (play [0, 3, 1, 4, 2]))"
    by simp
  have n: "get_num_moves (play [0, 3, 1, 4, 2]) = 5" "last (allMoves (play [0, 3, 1, 4, 2])) = 2"
    by code_simp+
  from terminal_score [OF r o, of True] r c n show ?thesis
    by simp
qed

section \<open>The search leaves its argument unchanged\<close>

lemma minimax_eq_loop_result:
  "minimax self maximize =
     (let (winner, isOver) = check_win self in
      if isOver then terminal_result self winner
      else loop_result self maximize (get_available_moves self) [] [])"
proof -
  obtain winner isOver where cw: "check_win self = (winner, isOver)"
    by (cases "check_win self")
  have br: "branch self maximize = (\<lambda>possibleMove.
      case add_move self possibleMove of
        (Some e, possibleGame) \<Rightarrow> Inl e
      | (None, possibleGame) \<Rightarrow>
          (case minimax possibleGame (\<not> maximize) of
             Inl e \<Rightarrow> Inl e
           | Inr (nextMove, nextScore) \<Rightarrow>
               Inr (if maximize then possibleMove else nextMove, nextScore)))"
    by (rule ext) (simp add: branch_def)
  show ?thesis
    by (subst minimax.simps)
      (simp add: cw terminal_result_def loop_result_def best_of_def br Let_def
         split: sum.splits)
qed

lemma lookup_Some_iff: "lookup h r = Some v \<longleftrightarrow> r < length h \<and> h ! r = v"
  by (auto simp: lookup_def)

lemma lookup_prefix:
  assumes "prefix h h'" and "lookup h r = Some v"
  shows "lookup h' r = Some v"
  using assms by (auto simp: lookup_Some_iff prefix_def nth_append)

lemma valid_fields:
  assumes "valid h self g"
  obtains b p1 p2 al where "lookup h self = Some (Instance b p1 p2 al (currentPlayer g))"
    and "distinct [b, p1, p2, al]"
    and "lookup h b = Some (StrList (currentBoard g))"
    and "lookup h p1 = Some (IntList (playerOneMoves g))"
    and "lookup h p2 = Some (IntList (playerTwoMoves g))"
    and "lookup h al = Some (IntList (allMoves g))"
  using assms unfolding valid_def read_game_def str_list_def int_list_def
  by (auto split: option.splits obj.splits)

lemma valid_intro:
  assumes "lookup h self = Some (Instance b p1 p2 al (currentPlayer g))"
    and "distinct [b, p1, p2, al]"
    and "lookup h b = Some (StrList (currentBoard g))"
    and "lookup h p1 = Some (IntList (playerOneMoves g))"
    and "lookup h p2 = Some (IntList (playerTwoMoves g))"
    and "lookup h al = Some (IntList (allMoves g))"
  shows "valid h self g"
  using assms unfolding valid_def read_game_def str_list_def int_list_def
  by simp

lemma valid_read: "valid h self g \<Longrightarrow> read_game h self = Some g"
  by (auto simp: valid_def split: option.splits obj.splits)

lemma valid_prefix:
  assumes "valid h self g" and "prefix h h'"
  shows "valid h' self g"
proof -
  from assms(1) obtain b p1 p2 al where f:
    "lookup h self = Some (Instance b p1 p2 al (currentPlayer g))"
    "distinct [b, p1, p2, al]"
    "lookup h b = Some (StrList (currentBoard g))"
    "lookup h p1 = Some (IntList (playerOneMoves g))"
    "lookup h p2 = Some (IntList (playerTwoMoves g))"
    "lookup h al = Some (IntList (allMoves g))"
    by (rule valid_fields)
  show ?thesis
    by (rule valid_intro [OF f(1) [THEN lookup_prefix [OF assms(2)]] f(2)
          f(3) [THEN lookup_prefix [OF assms(2)]] f(4) [THEN lookup_prefix [OF assms(2)]]
          f(5) [THEN lookup_prefix [OF assms(2)]] f(6) [THEN lookup_prefix [OF assms(2)]]])
qed

lemma prefix_alloc: "prefix h (alloc h g)"
  by (simp add: alloc_def)

lemma valid_alloc: "valid (alloc h g) (length h + 4) g"
  by (rule valid_intro [where b = "length h" and ?p1.0 = "length h + 1"
        and ?p2.0 = "length h + 2" and al = "length h + 3"])
    (simp_all add: alloc_def lookup_Some_iff nth_append)

lemma deepcopy_valid:
  assumes "valid h self g"
  shows "deepcopy h self = (length h + 4, alloc h g)"
proof -
  from assms obtain b p1 p2 al where f:
    "lookup h self = Some (Instance b p1 p2 al (currentPlayer g))"
    "distinct [b, p1, p2, al]"
    "lookup h b = Some (StrList (currentBoard g))"
    "lookup h p1 = Some (IntList (playerOneMoves g))"
    "lookup h p2 = Some (IntList (playerTwoMoves g))"
    "lookup h al = Some (IntList (allMoves g))"
    by (rule valid_fields)
  from f(3-6) have "b < length h" "p1 < length h" "p2 < length h" "al < length h"
    "h ! b = StrList (currentBoard g)" "h ! p1 = IntList (playerOneMoves g)"
    "h ! p2 = IntList (playerTwoMoves g)" "h ! al = IntList (allMoves g)"
    by (simp_all add: lookup_Some_iff)
  with f(1,2) show ?thesis
    by (simp add: deepcopy_def copy_list_def alloc_def nth_append)
qed

lemma add_move_h_alloc:
  "add_move_h (alloc h g) (length h + 4) m = (fst (add_move g m), alloc h (snd (add_move g m)))"
proof -
  have look: "lookup (alloc h g) (length h + 4) =
      Some (Instance (length h) (length h + 1) (length h + 2) (length h + 3) (currentPlayer g))"
    by (simp add: alloc_def lookup_Some_iff nth_append)
  show ?thesis
    unfolding add_move_h_def look valid_read [OF valid_alloc]
    by (simp add: alloc_def list_append_def lookup_def str_list_def nth_append
        list_update_append add_move_def Let_def split: sum.splits)
qed

lemma minimax_loop_refines:
  assumes calls: "\<And>h self g maximize. valid h self g \<Longrightarrow> num_empty g < f
            \<Longrightarrow> \<exists>h'. minimax_h f h self maximize = Some (minimax g maximize, h') \<and> prefix h h'"
    and "valid h self g" and "set rest \<subseteq> set (get_available_moves g)"
    and "num_empty g \<le> f"
  shows "\<exists>h'. minimax_loop f h self maximize rest moves scores
                = Some (loop_result g maximize rest moves scores, h') \<and> prefix h h'"
  using assms(2,3)
proof (induction rest arbitrary: h moves scores)
  case Nil
  show ?case
    by (simp add: loop_result_def)
next
  case (Cons possibleMove rest)
  let ?copy = "length h + 4"
  from Cons.prems(2) have avail: "possibleMove \<in> set (get_available_moves g)"
    and rest: "set rest \<subseteq> set (get_available_moves g)"
    by simp_all
  from add_move_available(1) [OF avail] obtain g' where pure: "add_move g possibleMove = (None, g')"
    by (cases "add_move g possibleMove") simp
  let ?h2 = "alloc h g'"
  from add_move_available(2) [OF avail] assms(4) have "num_empty g' < f"
    by (simp add: pure)
  from calls [OF valid_alloc this, of h "\<not> maximize"]
  obtain h3 where h3: "minimax_h f ?h2 ?copy (\<not> maximize) = Some (minimax g' (\<not> maximize), h3)"
    and h23: "prefix ?h2 h3"
    by blast
  from prefix_alloc [of h g'] h23 have pre: "prefix h h3"
    by (rule prefix_order.trans)
  have step: "minimax_loop f h self maximize (possibleMove # rest) moves scores =
      (case minimax g' (\<not> maximize) of
         Inl err \<Rightarrow> Some (Inl err, h3)
       | Inr (nextMove, nextScore) \<Rightarrow>
           minimax_loop f h3 self maximize rest
             (moves @ [if maximize then possibleMove else nextMove]) (scores @ [nextScore]))"
    by (simp add: deepcopy_valid [OF Cons.prems(1)] add_move_h_alloc pure h3
        split: sum.splits prod.splits)
  show ?case
  proof (cases "minimax g' (\<not> maximize)")
    case (Inl err)
    then have "loop_result g maximize (possibleMove # rest) moves scores = Inl err"
      by (simp add: loop_result_def branch_def pure)
    with step Inl pre show ?thesis
      by simp
  next
    case (Inr result)
    obtain nextMove nextScore where result: "result = (nextMove, nextScore)"
      by (cases result)
    let ?move = "if maximize then possibleMove else nextMove"
    have "loop_result g maximize (possibleMove # rest) moves scores =
        loop_result g maximize rest (moves @ [?move]) (scores @ [nextScore])"
      using Inr result by (simp add: loop_result_def branch_def pure split: sum.splits)
    moreover from Cons.IH [OF valid_prefix [OF Cons.prems(1) pre] rest,
        of "moves @ [?move]" "scores @ [nextScore]"]
    obtain h' where "minimax_loop f h3 self maximize rest (moves @ [?move]) (scores @ [nextScore])
        = Some (loop_result g maximize rest (moves @ [?move]) (scores @ [nextScore]), h')"
      and h3': "prefix h3 h'"
      by blast
    moreover from pre h3' have "prefix h h'"
      by (rule prefix_order.trans)
    ultimately show ?thesis
      using step Inr result by simp
  qed
qed

lemma minimax_h_refines:
  assumes "valid h self g" and "num_empty g < fuel"
  shows "\<exists>h'. minimax_h fuel h self maximize = Some (minimax g maximize, h') \<and> prefix h h'"
  using assms
proof (induction fuel arbitrary: h self g maximize)
  case 0
  then show ?case by simp
next
  case (Suc fuel)
  obtain winner isOver where cw: "check_win g = (winner, isOver)"
    by (cases "check_win g")
  show ?case
  proof (cases isOver)
    case True
    with cw show ?thesis
      by (simp add: valid_read [OF Suc.prems(1)] minimax_eq_loop_result [of g])
  next
    case False
    from Suc.prems(2) have "num_empty g \<le> fuel"
      by simp
    from minimax_loop_refines [OF Suc.IH Suc.prems(1) subset_refl this, of maximize "[]" "[]"]
    obtain h' where "minimax_loop fuel h self maximize (get_available_moves g) [] []
        = Some (loop_result g maximize (get_available_moves g) [] [], h')" and "prefix h h'"
      by blast
    with cw False show ?thesis
      by (simp add: valid_read [OF Suc.prems(1)] minimax_eq_loop_result [of g])
  qed
qed

text \<open>
  C8. For every game value \<open>g\<close>, every heap \<open>h\<close> that holds a game object \<open>self\<close> with
  that value, and both values of \<open>maximize\<close>: \<^verbatim>\<open>minimax\<close> returns (given fuel above the
  number of empty cells), its result is that of the function \<open>minimax\<close> on values, and
  afterwards \<open>self\<close> reads as the same \<open>g\<close> (board, both histories, combined history and
  turn indicator). Moreover the old heap is a prefix of the new one: no object that
  existed before the call has changed, all mutation went to the copies.
\<close>

theorem minimax_leaves_self:
  assumes "valid h self g" and "num_empty g < fuel"
  shows "\<exists>h'. minimax_h fuel h self maximize = Some (minimax g maximize, h') \<and>
           read_game h' self = Some g \<and> prefix h h'"
proof -
  from minimax_h_refines [OF assms, of maximize] obtain h'
    where "minimax_h fuel h self maximize = Some (minimax g maximize, h')" and "prefix h h'"
    by blast
  with valid_read [OF valid_prefix [OF assms(1) this(2)]] show ?thesis
    by blast
qed


text \<open>
  C8, witness: the game after seven moves as the object at address 4 of a heap of five
  objects; the search returns move 5 with score 2 and leaves those five objects as they
  were.
\<close>

theorem minimax_leaves_self_witness:
  "valid [StrList [''x'', ''x'', '' '', ''o'', ''o'', '' '', ''x'', ''o'', ''x''],
          IntList [0, 1, 8, 6], IntList [3, 4, 7], IntList [0, 3, 1, 4, 8, 7, 6],
          Instance 0 1 2 3 1] 4 (play [0, 3, 1, 4, 8, 7, 6]) \<and>
   num_empty (play [0, 3, 1, 4, 8, 7, 6]) < 3 \<and>
   (\<exists>h'. minimax_h 3 [StrList [''x'', ''x'', '' '', ''o'', ''o'', '' '', ''x'', ''o'', ''x''],
          IntList [0, 1, 8, 6], IntList [3, 4, 7], IntList [0, 3, 1, 4, 8, 7, 6],
          Instance 0 1 2 3 1] 4 True = Some (Inr (5, 2), h') \<and>
      read_game h' 4 = Some (play [0, 3, 1, 4, 8, 7, 6]) \<and>
      prefix [StrList [''x'', ''x'', '' '', ''o'', ''o'', '' '', ''x'', ''o'', ''x''],
          IntList [0, 1, 8, 6], IntList [3, 4, 7], IntList [0, 3, 1, 4, 8, 7, 6],
          Instance 0 1 2 3 1] h')"
proof -
  let ?h = "[StrList [''x'', ''x'', '' '', ''o'', ''o'', '' '', ''x'', ''o'', ''x''],
          IntList [0, 1, 8, 6], IntList [3, 4, 7], IntList [0, 3, 1, 4, 8, 7, 6],
          Instance 0 1 2 3 1]"
  have g: "currentBoard (play [0, 3, 1, 4, 8, 7, 6]) =
             [''x'', ''x'', '' '', ''o'', ''o'', '' '', ''x'', ''o'', ''x'']"
    "playerOneMoves (play [0, 3, 1, 4, 8, 7, 6]) = [0, 1, 8, 6]"
    "playerTwoMoves (play [0, 3, 1, 4, 8, 7, 6]) = [3, 4, 7]"
    "allMoves (play [0, 3, 1, 4, 8, 7, 6]) = [0, 3, 1, 4, 8, 7, 6]"
    "currentPlayer (play [0, 3, 1, 4, 8, 7, 6]) = 1"
    by code_simp+
  have v: "valid ?h 4 (play [0, 3, 1, 4, 8, 7, 6])"
    by (rule valid_intro [where b = 0 and ?p1.0 = 1 and ?p2.0 = 2 and al = 3])
      (simp_all add: g lookup_def)
  have n: "num_empty (play [0, 3, 1, 4, 8, 7, 6]) < 3"
    by (simp add: num_empty_def g)
  have m: "minimax (play [0, 3, 1, 4, 8, 7, 6]) True = Inr (5, 2)"
    by code_simp
  from minimax_leaves_self [OF v n, of True] v n m show ?thesis
    by simp
qed

section \<open>The score of the empty board\<close>

lemma lazy_ex_iff: "lazy_ex P xs \<longleftrightarrow> (\<exists>x \<in> set xs. P x)"
  by (induction xs) auto

lemma lazy_all_iff: "lazy_all P xs \<longleftrightarrow> (\<forall>x \<in> set xs. P x)"
  by (induction xs) auto

lemma wins_iff: "wins cells \<longleftrightarrow> has_line cells"
  by (simp add: wins_def lazy_ex_iff has_line_iff)

lemma sat_extremum:
  assumes "finite S" and "S \<noteq> {}"
  shows "sat up k (if mx then Max S else Min S) \<longleftrightarrow>
           (if mx = up then \<exists>s \<in> S. sat up k s else \<forall>s \<in> S. sat up k s)"
  using assms by (cases up; cases mx) (auto simp: sat_def Max_ge_iff Min_le_iff)

lemma bound_sound:
  assumes "bound f up k p1 p2 free n one mx"
    and "reachable self"
    and "set p1 = set (playerOneMoves self)" and "set p2 = set (playerTwoMoves self)"
    and "set free = set (get_available_moves self)"
    and "n = get_num_moves self"
    and "one \<longleftrightarrow> currentPlayer self = PLAYER_ONE"
    and "\<not> (has_line (playerOneMoves self) \<and> has_line (playerTwoMoves self))"
  shows "\<exists>bestMove bestScore. minimax self mx = Inr (bestMove, bestScore) \<and> sat up k bestScore"
  using assms
proof (induction f arbitrary: p1 p2 free n one mx self)
  case 0
  then show ?case by simp
next
  case (Suc f)
  note reach = \<open>reachable self\<close>
  have w1: "wins p1 = has_line (playerOneMoves self)"
    and w2: "wins p2 = has_line (playerTwoMoves self)"
    using Suc.prems(3,4) by (simp_all add: wins_iff has_line_def)
  note winner = check_win_winner [OF Suc.prems(8)]
  consider (one) "has_line (playerOneMoves self)"
    | (two) "\<not> has_line (playerOneMoves self)" "has_line (playerTwoMoves self)"
    | (full) "\<not> has_line (playerOneMoves self)" "\<not> has_line (playerTwoMoves self)"
        "free = []"
    | (playing) "\<not> has_line (playerOneMoves self)" "\<not> has_line (playerTwoMoves self)"
        "free \<noteq> []"
    by blast
  then show ?case
  proof cases
    case one
    then have over: "snd (check_win self)"
      by (simp add: check_win_over)
    from one Suc.prems(1) w1 have "sat up k (n - 10)"
      by simp
    with minimax_over [OF over over_nonempty [OF reach over], of mx] winner one Suc.prems(6)
    show ?thesis by simp
  next
    case two
    then have over: "snd (check_win self)"
      by (simp add: check_win_over)
    from two Suc.prems(1) w1 w2 have "sat up k (10 - n)"
      by simp
    with minimax_over [OF over over_nonempty [OF reach over], of mx] winner two Suc.prems(6)
    show ?thesis by (simp add: PLAYER_ONE_def PLAYER_TWO_def)
  next
    case full
    with Suc.prems(5) have "get_available_moves self = []"
      by simp
    with not_over_available [OF reach] have over: "snd (check_win self)"
      by blast
    from full Suc.prems(1) w1 w2 have "sat up k 0"
      by simp
    with minimax_over [OF over over_nonempty [OF reach over], of mx] winner full
    show ?thesis by (simp add: PLAYER_ONE_def PLAYER_TWO_def)
  next
    case playing
    let ?ms = "get_available_moves self"
    let ?child = "\<lambda>m. snd (add_move self m)"
    from playing(3) Suc.prems(5) have ne: "?ms \<noteq> []"
      by auto
    then have "num_empty self \<noteq> 0"
      by (simp add: length_get_available_moves [symmetric])
    with reachable_count [OF reach] playing(1,2) have not_over: "\<not> snd (check_win self)"
      by (simp add: check_win_over)
    define r where "r m = projr (minimax (?child m) (\<not> mx))" for m
    have r: "minimax (?child m) (\<not> mx) = Inr (r m)" if "m \<in> set ?ms" for m
      using minimax_total [OF reachable.move [OF reach that], of "\<not> mx"]
      by (auto simp: r_def)
    define S where "S = (\<lambda>m. snd (r m)) ` set ?ms"
    have S: "finite S" "S \<noteq> {}"
      using ne by (simp_all add: S_def)
    define B where "B = (\<lambda>m.
        if one then bound f up k (m # p1) p2 (removeAll m free) (n + 1) False (\<not> mx)
        else bound f up k p1 (m # p2) (removeAll m free) (n + 1) True (\<not> mx))"
    have step: "sat up k (snd (r m))" if m: "m \<in> set ?ms" and b: "B m" for m
    proof -
      have cp: "currentPlayer self = 0 \<or> currentPlayer self = 1"
        using reachable_currentPlayer [OF reach] by presburger
      have child: "reachable (?child m)"
        by (rule reachable.move [OF reach m])
      have p1': "set (if one then m # p1 else p1) = set (playerOneMoves (?child m))"
        using Suc.prems(3,7) by (simp add: add_move_valid [OF m])
      have p2': "set (if one then p2 else m # p2) = set (playerTwoMoves (?child m))"
        using Suc.prems(4,7) by (simp add: add_move_valid [OF m])
      have n': "n + 1 = get_num_moves (?child m)"
        using Suc.prems(6) by (simp add: add_move_valid [OF m] get_num_moves_def)
      have one': "(\<not> one) \<longleftrightarrow> currentPlayer (?child m) = PLAYER_ONE"
        using Suc.prems(7) cp by (auto simp: add_move_valid [OF m] PLAYER_ONE_def)
      have free': "set (removeAll m free) = set (get_available_moves (?child m))"
        using Suc.prems(5) by (simp add: available_after_move [OF m])
      have lines: "\<not> (has_line (playerOneMoves (?child m)) \<and> has_line (playerTwoMoves (?child m)))"
        using playing(1,2) by (simp add: add_move_valid [OF m])
      have "\<exists>bestMove bestScore. minimax (?child m) (\<not> mx) = Inr (bestMove, bestScore) \<and>
              sat up k bestScore"
      proof (cases one)
        case True
        with b have bb: "bound f up k (m # p1) p2 (removeAll m free) (n + 1) False (\<not> mx)"
          by (simp add: B_def)
        from True p1' have s1: "set (m # p1) = set (playerOneMoves (?child m))"
          by simp
        from True p2' have s2: "set p2 = set (playerTwoMoves (?child m))"
          by simp
        from True one' have o1: "False \<longleftrightarrow> currentPlayer (?child m) = PLAYER_ONE"
          by simp
        show ?thesis
          by (rule Suc.IH [OF bb child s1 s2 free' n' o1 lines])
      next
        case False
        with b have bb: "bound f up k p1 (m # p2) (removeAll m free) (n + 1) True (\<not> mx)"
          by (simp add: B_def)
        from False p1' have s1: "set p1 = set (playerOneMoves (?child m))"
          by simp
        from False p2' have s2: "set (m # p2) = set (playerTwoMoves (?child m))"
          by simp
        from False one' have o1: "True \<longleftrightarrow> currentPlayer (?child m) = PLAYER_ONE"
          by simp
        show ?thesis
          by (rule Suc.IH [OF bb child s1 s2 free' n' o1 lines])
      qed
      with r [OF m] show ?thesis
        by auto
    qed
    have unfolded: "if mx = up then lazy_ex B free else lazy_all B free"
      using Suc.prems(1) playing w1 w2 unfolding B_def by simp
    have "if mx = up then \<exists>s \<in> S. sat up k s else \<forall>s \<in> S. sat up k s"
    proof (cases "mx = up")
      case True
      with unfolded obtain m where "m \<in> set free" "B m"
        by (auto simp: lazy_ex_iff)
      with step [of m] Suc.prems(5) have "sat up k (snd (r m))" "snd (r m) \<in> S"
        by (simp_all add: S_def)
      with True show ?thesis
        by auto
    next
      case False
      with unfolded have "\<forall>m \<in> set free. B m"
        by (simp add: lazy_all_iff)
      with step Suc.prems(5) have "\<forall>s \<in> S. sat up k s"
        by (auto simp: S_def)
      with False show ?thesis
        by simp
    qed
    then have "sat up k (if mx then Max S else Min S)"
      by (simp only: sat_extremum [OF S])
    with minimax_not_over [OF not_over ne r] show ?thesis
      unfolding S_def by auto
  qed
qed

lemma score_between:
  assumes "bound f True k p1 p2 free n one mx" and "bound f' False k p1 p2 free' n one mx"
    and "reachable self"
    and "set p1 = set (playerOneMoves self)" and "set p2 = set (playerTwoMoves self)"
    and "set free = set (get_available_moves self)"
    and "set free' = set (get_available_moves self)"
    and "n = get_num_moves self"
    and "one \<longleftrightarrow> currentPlayer self = PLAYER_ONE"
    and "\<not> (has_line (playerOneMoves self) \<and> has_line (playerTwoMoves self))"
  shows "\<exists>bestMove. minimax self mx = Inr (bestMove, k)"
  using bound_sound [OF assms(1,3,4,5,6,8,9,10)] bound_sound [OF assms(2,3,4,5,7,8,9,10)]
  by (auto simp: sat_def)

lemma empty_lower: "bound 10 True 0 [] [] [4, 0, 1, 2, 3, 5, 6, 7, 8] 0 True True"
  by code_simp

lemma empty_upper: "bound 10 False 0 [] [] [4, 0, 2, 6, 8, 1, 3, 5, 7] 0 True True"
  by code_simp

text \<open>
  C3. On the new game (empty board, no moves, player one to move) \<^verbatim>\<open>minimax\<close> with
  \<open>maximize = True\<close> returns the score 0.
\<close>

theorem empty_board_draw: "\<exists>bestMove. minimax init True = Inr (bestMove, 0)"
proof (rule score_between [OF empty_lower empty_upper reachable.start])
  show "set [] = set (playerOneMoves init)" "set [] = set (playerTwoMoves init)"
    by (simp_all add: init_def)
  show "set [4, 0, 1, 2, 3, 5, 6, 7, 8] = set (get_available_moves init)"
    "set [4, 0, 2, 6, 8, 1, 3, 5, 7] = set (get_available_moves init)"
    by code_simp+
  show "0 = get_num_moves init"
    by (simp add: init_def get_num_moves_def)
  show "True \<longleftrightarrow> currentPlayer init = PLAYER_ONE"
    by (simp add: init_def)
  show "\<not> (has_line (playerOneMoves init) \<and> has_line (playerTwoMoves init))"
    by (simp add: init_def not_has_line_Nil)
qed


end
